theory Spec2Isabelle
  imports Main "HOL-Library.Char_ord" "HOL-Library.List_Lexorder" "HOL-Library.Multiset"
begin

section \<open>The search engine of \<^verbatim>\<open>search_engine.py\<close>\<close>

text \<open>
  The development follows \<^verbatim>\<open>src/search_engine.py\<close>: the classes \<^verbatim>\<open>TrieNode\<close>,
  \<^verbatim>\<open>Trie\<close> and \<^verbatim>\<open>SearchEngine\<close>. Python strings are modelled as \<^typ>\<open>string\<close>, that
  is, lists of 8-bit characters: a character is a code point from 0 to 255, and case
  folding, white space and punctuation are those of Python on these code points.
  Python's unbounded integers are \<^typ>\<open>int\<close>.
  The order of Python strings (by code point, lexicographic) is the order of
  \<^typ>\<open>string\<close> from \<^verbatim>\<open>Char_ord\<close> and \<^verbatim>\<open>List_Lexorder\<close>.
\<close>

subsection \<open>Errors\<close>

text \<open>The two exceptions the modelled code can raise: an index out of the range of a
  list, and a key missing from a dictionary.\<close>

datatype py_error = IndexError | KeyError

subsection \<open>Class \<^verbatim>\<open>TrieNode\<close> and class \<^verbatim>\<open>Trie\<close>\<close>

text \<open>A node has a dictionary of children, the end-of-word flag and the index into the
  array of occurrence lists. The nodes of a Python trie form a tree with no sharing, so
  the in-place updates of \<^verbatim>\<open>insert\<close> are modelled by rebuilding the path.\<close>

datatype trie_node =
  TrieNode (children: "char \<Rightarrow> trie_node option") (is_end_of_word: bool)
    (occurrence_list_index: int)

text \<open>\<^verbatim>\<open>TrieNode.__init__\<close>: no children, not the end of a word, index \<open>-1\<close>.\<close>

definition new_node :: trie_node where
  "new_node = TrieNode (\<lambda>_. None) False (- 1)"

text \<open>\<^verbatim>\<open>Trie.insert(word, occurrence_list_index)\<close>, started at the root: walk the
  characters, creating a child where there is none, then mark the last node.\<close>

fun trie_insert :: "string \<Rightarrow> int \<Rightarrow> trie_node \<Rightarrow> trie_node" where
  "trie_insert [] i (TrieNode ch e idx) = TrieNode ch True i"
| "trie_insert (c # cs) i (TrieNode ch e idx) =
     (let child = (case ch c of None \<Rightarrow> new_node | Some n \<Rightarrow> n)
      in TrieNode (ch(c \<mapsto> trie_insert cs i child)) e idx)"

text \<open>\<^verbatim>\<open>Trie.search(word)\<close>, started at the root: \<open>-1\<close> when a character has no
  child, or when the node reached is not the end of a word.\<close>

fun trie_search :: "trie_node \<Rightarrow> string \<Rightarrow> int" where
  "trie_search (TrieNode ch e idx) [] = (if e then idx else - 1)"
| "trie_search (TrieNode ch e idx) (c # cs) =
     (case ch c of None \<Rightarrow> - 1 | Some n \<Rightarrow> trie_search n cs)"

text \<open>A trie built by a sequence of \<^verbatim>\<open>insert\<close> calls on a fresh \<^verbatim>\<open>Trie()\<close>.\<close>

definition trie_of :: "(string \<times> int) list \<Rightarrow> trie_node" where
  "trie_of kvs = foldl (\<lambda>t (w, i). trie_insert w i t) new_node kvs"

subsection \<open>The stop words and the tokenizer\<close>

text \<open>\<^verbatim>\<open>load_stop_words\<close>: the fixed set of stop words.\<close>

definition stop_words :: "string list" where
  "stop_words =
    [''a'', ''an'', ''the'', ''and'', ''or'', ''but'', ''is'', ''are'', ''was'', ''were'',
     ''in'', ''on'', ''at'', ''to'', ''for'', ''with'', ''by'', ''about'', ''against'',
     ''between'', ''into'', ''through'', ''during'', ''before'', ''after'', ''above'',
     ''below'', ''from'', ''up'', ''down'', ''of'', ''off'', ''over'', ''under'', ''again'',
     ''further'', ''then'', ''once'', ''here'', ''there'', ''when'', ''where'', ''why'',
     ''how'', ''all'', ''any'', ''both'', ''each'', ''few'', ''more'', ''most'', ''other'',
     ''some'', ''such'', ''no'', ''nor'', ''not'', ''only'', ''own'', ''same'', ''so'',
     ''than'', ''too'', ''very'', ''s'', ''t'', ''can'', ''will'', ''just'', ''don'',
     ''should'', ''now'', ''he'', ''she'', ''it'', ''they'', ''we'', ''you'', ''i'', ''me'', ''my'']"

text \<open>\<^verbatim>\<open>str.lower\<close> on one character: the letters \<open>A\<close> to \<open>Z\<close> (codes 65 to 90) and
  the accented capitals (codes 192 to 222, but not the multiplication sign 215) move up
  by 32; every other code point below 256 is its own lower case.\<close>

definition lower_char :: "char \<Rightarrow> char" where
  "lower_char c =
     (let n = (of_char c :: nat)
      in if (65 \<le> n \<and> n \<le> 90) \<or> (192 \<le> n \<and> n \<le> 222 \<and> n \<noteq> 215)
         then char_of (n + 32) else c)"

definition str_lower :: "string \<Rightarrow> string" where
  "str_lower s = map lower_char s"

text \<open>\<^verbatim>\<open>string.punctuation\<close>: the 32 ASCII punctuation characters, codes 33 to 47, 58 to
  64, 91 to 96 and 123 to 126.\<close>

definition is_punctuation :: "char \<Rightarrow> bool" where
  "is_punctuation c =
     (let n = (of_char c :: nat)
      in (33 \<le> n \<and> n \<le> 47) \<or> (58 \<le> n \<and> n \<le> 64) \<or> (91 \<le> n \<and> n \<le> 96) \<or> (123 \<le> n \<and> n \<le> 126))"

text \<open>White space of \<^verbatim>\<open>str.split()\<close> and \<^verbatim>\<open>str.strip()\<close>: codes 9 to 13, 28 to 32,
  133 (next line) and 160 (no-break space).\<close>

definition is_space :: "char \<Rightarrow> bool" where
  "is_space c =
     (let n = (of_char c :: nat)
      in (9 \<le> n \<and> n \<le> 13) \<or> (28 \<le> n \<and> n \<le> 32) \<or> n = 133 \<or> n = 160)"

text \<open>\<^verbatim>\<open>text.split()\<close>: the maximal runs of characters that are not white space, in
  order. The first argument is the run read so far.\<close>

fun split_from :: "string \<Rightarrow> string \<Rightarrow> string list" where
  "split_from cur [] = (if cur = [] then [] else [cur])"
| "split_from cur (c # cs) =
     (if is_space c then (if cur = [] then split_from [] cs else cur # split_from [] cs)
      else split_from (cur @ [c]) cs)"

definition str_split :: "string \<Rightarrow> string list" where
  "str_split s = split_from [] s"


text \<open>\<^verbatim>\<open>SearchEngine.tokenize\<close>: lower the text, delete the punctuation, split at white
  space, and keep the words that are no stop words and longer than one character.\<close>

definition tokenize :: "string \<Rightarrow> string list" where
  "tokenize text =
     (let text1 = str_lower text;
          text2 = filter (\<lambda>c. \<not> is_punctuation c) text1
      in filter (\<lambda>word. word \<notin> set stop_words \<and> length word > 1) (str_split text2))"

text \<open>The list of query terms, as \<^verbatim>\<open>search\<close> and \<^verbatim>\<open>rank_results\<close> both compute it:
  \<^verbatim>\<open>[term for term in self.tokenize(query) if term not in self.stop_words]\<close>.\<close>

definition query_terms_of :: "string \<Rightarrow> string list" where
  "query_terms_of query = filter (\<lambda>term. term \<notin> set stop_words) (tokenize query)"

subsection \<open>Class \<^verbatim>\<open>SearchEngine\<close>: the state\<close>

text \<open>The fields the index and the ranking use. \<^verbatim>\<open>inverted_index\<close> is a dictionary
  whose keys are later sorted, so it is an association list with one entry per key;
  \<^verbatim>\<open>word_frequencies\<close> maps a url to the \<^verbatim>\<open>Counter\<close> of its words, a function from
  words to counts that is 0 where the word is absent. The fields \<^verbatim>\<open>pages\<close> and
  \<^verbatim>\<open>stats\<close> are written but never read by the modelled methods and are left out.\<close>

record engine =
  page_titles :: "string \<rightharpoonup> string"
  inverted_index :: "(string \<times> string list) list"
  trie :: trie_node
  occurrence_lists :: "string list list"
  word_frequencies :: "string \<rightharpoonup> (string \<Rightarrow> nat)"

text \<open>\<^verbatim>\<open>SearchEngine.__init__\<close>.\<close>

definition init_engine :: engine where
  "init_engine =
     \<lparr>page_titles = Map.empty, inverted_index = [], trie = new_node,
      occurrence_lists = [], word_frequencies = Map.empty\<rparr>"

subsection \<open>Building the index\<close>

text \<open>\<^verbatim>\<open>title_tag.text.strip()\<close> and \<^verbatim>\<open>url.split('/')[-1]\<close>.\<close>

definition str_strip :: "string \<Rightarrow> string" where
  "str_strip s = rev (dropWhile is_space (rev (dropWhile is_space s)))"

definition last_segment :: "string \<Rightarrow> string" where
  "last_segment url = rev (takeWhile (\<lambda>c. c \<noteq> CHR ''/'') (rev url))"

text \<open>\<^verbatim>\<open>self.inverted_index[word].append(url)\<close> on the \<^verbatim>\<open>defaultdict(list)\<close>: a new key
  starts with the empty list.\<close>

fun index_append :: "(string \<times> string list) list \<Rightarrow> string \<Rightarrow> string \<Rightarrow> (string \<times> string list) list" where
  "index_append [] word url = [(word, [url])]"
| "index_append ((k, urls) # rest) word url =
     (if k = word then (k, urls @ [url]) # rest else (k, urls) # index_append rest word url)"

text \<open>\<^verbatim>\<open>self.inverted_index[word]\<close>, read.\<close>

definition index_get :: "(string \<times> string list) list \<Rightarrow> string \<Rightarrow> string list" where
  "index_get ix word = (case map_of ix word of None \<Rightarrow> [] | Some urls \<Rightarrow> urls)"

text \<open>\<^verbatim>\<open>process_page(url, content)\<close>. The markup parser is outside the engine: a page
  comes as its url, the text of its title tag when it has one, and the text that
  \<^verbatim>\<open>soup.get_text()\<close> returns. The loop over \<^verbatim>\<open>set(words)\<close> visits each distinct word
  once; Python fixes no order for it, the model takes that of \<open>remdups\<close>. Each word
  only touches its own key, and \<^verbatim>\<open>build_index\<close> sorts the keys.\<close>

definition process_page :: "engine \<Rightarrow> string \<Rightarrow> string option \<Rightarrow> string \<Rightarrow> engine" where
  "process_page e url title_tag text =
     (let title = (case title_tag of Some t \<Rightarrow> str_strip t | None \<Rightarrow> last_segment url);
          words = tokenize text;
          e1 = e\<lparr>page_titles := (page_titles e)(url \<mapsto> title),
                 word_frequencies := (word_frequencies e)(url \<mapsto> count_list words)\<rparr>
      in foldl (\<lambda>e' word.
                  if word \<notin> set stop_words \<and> length word > 1
                  then e'\<lparr>inverted_index := index_append (inverted_index e') word url\<rparr>
                  else e')
           e1 (remdups words))"

text \<open>\<^verbatim>\<open>build_index\<close>: one step of the loop over \<^verbatim>\<open>enumerate(sorted_words)\<close>, and the
  method.\<close>

definition build_step :: "engine \<Rightarrow> nat \<times> string \<Rightarrow> engine" where
  "build_step e iw =
     (case iw of (i, word) \<Rightarrow>
        let occurrence_list = sort (index_get (inverted_index e) word)
        in e\<lparr>occurrence_lists := occurrence_lists e @ [occurrence_list],
             trie := trie_insert word (int i) (trie e)\<rparr>)"

definition build_index :: "engine \<Rightarrow> engine" where
  "build_index e =
     (let sorted_words = sort (map fst (inverted_index e))
      in foldl build_step e (enumerate 0 sorted_words))"

text \<open>\<^verbatim>\<open>crawl_directory\<close>: every page of the directory is processed, then the index is
  built. Reading the files is outside the engine; the pages come as a list of
  (url, title tag, text). The urls are made from the file names of one directory, so
  they are pairwise distinct.\<close>

definition process_pages :: "(string \<times> string option \<times> string) list \<Rightarrow> engine \<Rightarrow> engine" where
  "process_pages pages e =
     foldl (\<lambda>e' page. case page of (url, title_tag, text) \<Rightarrow> process_page e' url title_tag text)
       e pages"

definition crawl_directory :: "(string \<times> string option \<times> string) list \<Rightarrow> engine" where
  "crawl_directory pages = build_index (process_pages pages init_engine)"

subsection \<open>Searching\<close>

text \<open>\<^verbatim>\<open>xs[i]\<close> on a Python list: a negative index counts from the end, an index out of
  range raises.\<close>

definition list_item :: "'a list \<Rightarrow> int \<Rightarrow> py_error + 'a" where
  "list_item xs i =
     (if 0 \<le> i \<and> i < int (length xs) then Inr (xs ! nat i)
      else if - int (length xs) \<le> i \<and> i < 0 then Inr (xs ! nat (int (length xs) + i))
      else Inl IndexError)"

text \<open>The loop of \<^verbatim>\<open>search\<close> over the query terms: \<open>None\<close> is the early
  \<^verbatim>\<open>return []\<close> at a term that is not found.\<close>

fun collect_lists :: "engine \<Rightarrow> string list \<Rightarrow> string list list \<Rightarrow> py_error + string list list option" where
  "collect_lists e [] result_lists = Inr (Some result_lists)"
| "collect_lists e (word # rest) result_lists =
     (let list_index = trie_search (trie e) word
      in if list_index = - 1 then Inr None
         else (case list_item (occurrence_lists e) list_index of
                 Inl err \<Rightarrow> Inl err
               | Inr l \<Rightarrow> collect_lists e rest (result_lists @ [l])))"

text \<open>\<^verbatim>\<open>search(query)\<close>. The intersection is a Python set, and \<^verbatim>\<open>list(intersection)\<close>
  lists it in an order Python does not fix; the model lists it in the order of the
  first occurrence list. The theorems about queries of several terms speak of the set
  of the result only.\<close>

definition search :: "engine \<Rightarrow> string \<Rightarrow> py_error + string list" where
  "search e query =
     (let query_terms = query_terms_of query
      in if query_terms = [] then Inr []
         else if length query_terms = 1 then
           (let word = hd query_terms;
                list_index = trie_search (trie e) word
            in if list_index = - 1 then Inr [] else list_item (occurrence_lists e) list_index)
         else (case collect_lists e query_terms [] of
                 Inl err \<Rightarrow> Inl err
               | Inr None \<Rightarrow> Inr []
               | Inr (Some result_lists) \<Rightarrow>
                   Inr (foldl (\<lambda>intersection result_list.
                                 filter (\<lambda>d. d \<in> set result_list) intersection)
                          (remdups (hd result_lists)) (tl result_lists))))"

subsection \<open>Ranking\<close>

text \<open>\<^verbatim>\<open>term in title\<close>: the term occurs in the title as a run of consecutive
  characters.\<close>

fun starts_with :: "string \<Rightarrow> string \<Rightarrow> bool" where
  "starts_with s [] = True"
| "starts_with [] (c # p) = False"
| "starts_with (a # s) (c # p) = (a = c \<and> starts_with s p)"

fun str_contains :: "string \<Rightarrow> string \<Rightarrow> bool" where
  "str_contains [] t = (t = [])"
| "str_contains (a # s) t = (starts_with (a # s) t \<or> str_contains s t)"

text \<open>The bonus test of \<^verbatim>\<open>rank_results\<close>:
  \<^verbatim>\<open>url in self.page_titles and term in self.page_titles[url].lower()\<close>.\<close>

definition in_title :: "engine \<Rightarrow> string \<Rightarrow> string \<Rightarrow> bool" where
  "in_title e url term =
     (case page_titles e url of None \<Rightarrow> False | Some title \<Rightarrow> str_contains (str_lower title) term)"

text \<open>The inner loop of \<^verbatim>\<open>rank_results\<close> over the query terms, with the score so far.\<close>

fun score_terms :: "engine \<Rightarrow> string \<Rightarrow> (string \<Rightarrow> nat) \<Rightarrow> string list \<Rightarrow> int \<Rightarrow> int" where
  "score_terms e url page_word_counts [] score = score"
| "score_terms e url page_word_counts (term # rest) score =
     (let term_freq = int (page_word_counts term);
          score1 = score + term_freq;
          score2 = (if in_title e url term then score1 + 2 else score1)
      in score_terms e url page_word_counts rest score2)"

text \<open>The score of one url: \<^verbatim>\<open>self.word_frequencies[url]\<close> raises for a url that is
  not in the dictionary.\<close>

definition ranking_score :: "engine \<Rightarrow> string list \<Rightarrow> string \<Rightarrow> py_error + int" where
  "ranking_score e query_terms url =
     (case word_frequencies e url of
        None \<Rightarrow> Inl KeyError
      | Some page_word_counts \<Rightarrow> Inr (score_terms e url page_word_counts query_terms 0))"

text \<open>\<^verbatim>\<open>scores[url] = score\<close>: a Python dictionary keeps its keys in the order of their
  first insertion.\<close>

fun dict_set :: "(string \<times> int) list \<Rightarrow> string \<Rightarrow> int \<Rightarrow> (string \<times> int) list" where
  "dict_set [] k v = [(k, v)]"
| "dict_set ((k', v') # d) k v =
     (if k' = k then (k', v) # d else (k', v') # dict_set d k v)"

text \<open>The outer loop of \<^verbatim>\<open>rank_results\<close> over the results.\<close>

fun score_results :: "engine \<Rightarrow> string list \<Rightarrow> string list \<Rightarrow> (string \<times> int) list \<Rightarrow> py_error + (string \<times> int) list" where
  "score_results e query_terms [] scores = Inr scores"
| "score_results e query_terms (url # rest) scores =
     (case ranking_score e query_terms url of
        Inl err \<Rightarrow> Inl err
      | Inr score \<Rightarrow> score_results e query_terms rest (dict_set scores url score))"

text \<open>\<^verbatim>\<open>rank_results(query, results)\<close>. Python's \<^verbatim>\<open>sorted(..., reverse=True)\<close> is
  stable: items of equal score keep their order. That is the stable ascending sort by
  the negated score.\<close>

definition rank_results :: "engine \<Rightarrow> string \<Rightarrow> string list \<Rightarrow> py_error + string list" where
  "rank_results e query results =
     (let query_terms = query_terms_of query
      in case score_results e query_terms results [] of
           Inl err \<Rightarrow> Inl err
         | Inr scores \<Rightarrow> Inr (map fst (sort_key (\<lambda>item. - snd item) scores)))"

subsection \<open>Notions of the specification\<close>

text \<open>The postings list of a term: the occurrence list at the index that the trie
  gives for the term, and the empty list for a term that the trie does not find.\<close>

definition postings :: "engine \<Rightarrow> string \<Rightarrow> string list" where
  "postings e term =
     (let list_index = trie_search (trie e) term
      in if list_index = - 1 then [] else occurrence_lists e ! nat list_index)"

text \<open>The stored frequency of a term in a document, 0 where the document or the term
  is absent, and the title bonus of a term.\<close>

definition frequency_of :: "engine \<Rightarrow> string \<Rightarrow> string \<Rightarrow> nat" where
  "frequency_of e url term = (case word_frequencies e url of None \<Rightarrow> 0 | Some c \<Rightarrow> c term)"

definition term_score :: "engine \<Rightarrow> string \<Rightarrow> string \<Rightarrow> int" where
  "term_score e url term = int (frequency_of e url term) + (if in_title e url term then 2 else 0)"

text \<open>The score as the specification words it: a sum over the distinct query terms.\<close>

definition spec_score :: "engine \<Rightarrow> string \<Rightarrow> string \<Rightarrow> int" where
  "spec_score e query url = sum_list (map (term_score e url) (remdups (query_terms_of query)))"

text \<open>The documents, in the order of the pages, whose text contains a word.\<close>

definition pages_with :: "(string \<times> string option \<times> string) list \<Rightarrow> string \<Rightarrow> string list" where
  "pages_with pages word = map fst (filter (\<lambda>page. word \<in> set (tokenize (snd (snd page)))) pages)"

text \<open>The vocabulary in the order of \<^verbatim>\<open>build_index\<close>: the sorted keys of the inverted
  index after all pages are processed.\<close>

definition vocabulary :: "(string \<times> string option \<times> string) list \<Rightarrow> string list" where
  "vocabulary pages = sort (map fst (inverted_index (process_pages pages init_engine)))"

text \<open>The score as \<^verbatim>\<open>rank_results\<close> adds it up: a sum over the list of query terms, a
  term counted as often as the query repeats it.\<close>

definition listed_score :: "engine \<Rightarrow> string \<Rightarrow> string \<Rightarrow> int" where
  "listed_score e query url = sum_list (map (term_score e url) (query_terms_of query))"

text \<open>Three pages for the examples; the last one has no title tag.\<close>

definition example_pages :: "(string \<times> string option \<times> string) list" where
  "example_pages =
     [(''file://input_pages/d2.html'', Some ''Dog Training'', ''dogs are great dogs dogs''),
      (''file://input_pages/d1.html'', Some ''Cats and Dogs'', ''the cat sat on the mat with a dog''),
      (''file://input_pages/d0.html'', None, ''Dog and cat!'')]"

section \<open>The term dictionary\<close>

lemma trie_search_new_node: "trie_search new_node w = - 1"
  by (cases w) (simp_all add: new_node_def)

lemma trie_search_insert:
  "trie_search (trie_insert w i t) v = (if v = w then i else trie_search t v)"
proof (induction w i t arbitrary: v rule: trie_insert.induct)
  case (1 i ch e idx)
  show ?case by (cases v) simp_all
next
  case (2 c cs i ch e idx)
  show ?case
  proof (cases v)
    case Nil
    then show ?thesis by (simp add: Let_def)
  next
    case (Cons d ds)
    show ?thesis
    proof (cases "d = c")
      case False
      with Cons show ?thesis by (simp add: Let_def)
    next
      case True
      have "trie_search (trie_insert cs i (case ch c of None \<Rightarrow> new_node | Some n \<Rightarrow> n)) ds =
            (if ds = cs then i
             else trie_search (case ch c of None \<Rightarrow> new_node | Some n \<Rightarrow> n) ds)"
        by (rule "2.IH") simp
      with Cons True show ?thesis
        by (simp add: Let_def trie_search_new_node split: option.splits)
    qed
  qed
qed

lemma trie_search_foldl:
  "trie_search (foldl (\<lambda>t (w, i). trie_insert w i t) t kvs) v =
     (case map_of (rev kvs) v of None \<Rightarrow> trie_search t v | Some i \<Rightarrow> i)"
proof (induction kvs arbitrary: t)
  case Nil
  show ?case by simp
next
  case (Cons kv kvs)
  obtain w i where kv: "kv = (w, i)" by (cases kv)
  show ?case
    by (simp add: Cons.IH kv trie_search_insert map_add_def split: option.splits)
qed

lemma trie_search_trie_of:
  "trie_search (trie_of kvs) v = (case map_of (rev kvs) v of None \<Rightarrow> - 1 | Some i \<Rightarrow> i)"
  by (simp add: trie_of_def trie_search_foldl trie_search_new_node split: option.splits)

lemma map_of_rev_distinct:
  "distinct (map fst kvs) \<Longrightarrow> map_of (rev kvs) = map_of kvs"
  by (rule map_of_inject_set [THEN iffD2]) (simp_all add: distinct_rev rev_map [symmetric])

text \<open>
  Claim C4. In a trie built from a fresh root by a sequence of \<^verbatim>\<open>insert(term, index)\<close>
  calls with pairwise distinct terms, the lookup of an inserted term returns the index
  given at its insertion, and the lookup of any string that is no inserted term returns
  \<open>-1\<close> (NOT_FOUND), whether the walk stops at a missing child or ends on a node that is
  not marked as the end of a term.
\<close>

theorem trie_lookup_correct:
  assumes "distinct (map fst kvs)"
  shows "((w, i) \<in> set kvs \<longrightarrow> trie_search (trie_of kvs) w = i) \<and>
         (v \<notin> fst ` set kvs \<longrightarrow> trie_search (trie_of kvs) v = - 1)"
proof -
  have m: "map_of (rev kvs) = map_of kvs"
    using assms by (rule map_of_rev_distinct)
  have "(w, i) \<in> set kvs \<Longrightarrow> map_of kvs w = Some i"
    using assms by simp
  moreover have "v \<notin> fst ` set kvs \<Longrightarrow> map_of kvs v = None"
    by (simp add: map_of_eq_None_iff)
  ultimately show ?thesis
    by (auto simp: trie_search_trie_of m)
qed

theorem trie_lookup_correct_witness:
  "distinct (map fst [(''cat'', 0 :: int), (''cats'', 1)]) \<and>
   trie_search (trie_of [(''cat'', 0), (''cats'', 1)]) ''cats'' = 1 \<and>
   trie_search (trie_of [(''cat'', 0), (''cats'', 1)]) ''ca'' = - 1 \<and>
   trie_search (trie_of [(''cat'', 0), (''cats'', 1)]) ''dog'' = - 1"
  using trie_lookup_correct [of "[(''cat'', 0), (''cats'', 1)]" "''cats''" 1 "''ca''"]
    trie_lookup_correct [of "[(''cat'', 0), (''cats'', 1)]" "''cats''" 1 "''dog''"]
  by simp

section \<open>The tokenizer\<close>









lemma tokenize_words:
  "w \<in> set (tokenize x) \<Longrightarrow> w \<notin> set stop_words \<and> length w > 1"
  by (simp add: tokenize_def Let_def)



section \<open>Building the index\<close>

lemma index_get_append:
  "index_get (index_append ix w u) v = (if v = w then index_get ix w @ [u] else index_get ix v)"
  by (induction ix w u rule: index_append.induct) (auto simp: index_get_def)

lemma keys_index_append: "fst ` set (index_append ix w u) = insert w (fst ` set ix)"
  by (induction ix w u rule: index_append.induct) auto

lemma distinct_index_append:
  "distinct (map fst ix) \<Longrightarrow> distinct (map fst (index_append ix w u))"
  by (induction ix w u rule: index_append.induct) (auto simp: keys_index_append)

lemma index_get_foldl:
  "distinct ws \<Longrightarrow>
   index_get (foldl (\<lambda>ix w. index_append ix w u) ix ws) v =
     (if v \<in> set ws then index_get ix v @ [u] else index_get ix v)"
  by (induction ws arbitrary: ix) (auto simp: index_get_append)

lemma keys_foldl:
  "fst ` set (foldl (\<lambda>ix w. index_append ix w u) ix ws) = fst ` set ix \<union> set ws"
  by (induction ws arbitrary: ix) (auto simp: keys_index_append)

lemma distinct_foldl:
  "distinct (map fst ix) \<Longrightarrow> distinct (map fst (foldl (\<lambda>ix w. index_append ix w u) ix ws))"
  by (induction ws arbitrary: ix) (auto simp: distinct_index_append)

lemma words_loop:
  "\<forall>w\<in>set ws. w \<notin> set stop_words \<and> length w > 1 \<Longrightarrow>
   foldl (\<lambda>e' word.
            if word \<notin> set stop_words \<and> length word > 1
            then e'\<lparr>inverted_index := index_append (inverted_index e') word url\<rparr>
            else e') e ws =
   e\<lparr>inverted_index := foldl (\<lambda>ix w. index_append ix w url) (inverted_index e) ws\<rparr>"
  by (induction ws arbitrary: e) simp_all

lemma process_page_eq:
  "process_page e url title_tag text =
     e\<lparr>page_titles := (page_titles e)(url \<mapsto> (case title_tag of Some t \<Rightarrow> str_strip t | None \<Rightarrow> last_segment url)),
       word_frequencies := (word_frequencies e)(url \<mapsto> count_list (tokenize text)),
       inverted_index := foldl (\<lambda>ix w. index_append ix w url) (inverted_index e) (remdups (tokenize text))\<rparr>"
proof -
  have "\<forall>w\<in>set (remdups (tokenize text)). w \<notin> set stop_words \<and> length w > 1"
    using tokenize_words by simp
  then show ?thesis
    unfolding process_page_def Let_def by (subst words_loop) simp_all
qed

lemma pages_with_snoc:
  "pages_with (pages @ [(url, title_tag, text)]) w =
     (if w \<in> set (tokenize text) then pages_with pages w @ [url] else pages_with pages w)"
  by (simp add: pages_with_def)

lemma process_pages_snoc:
  "process_pages (pages @ [(url, title_tag, text)]) e =
     process_page (process_pages pages e) url title_tag text"
  by (simp add: process_pages_def)

lemma process_pages_index:
  "index_get (inverted_index (process_pages pages init_engine)) w = pages_with pages w \<and>
   fst ` set (inverted_index (process_pages pages init_engine)) = {w. pages_with pages w \<noteq> []} \<and>
   distinct (map fst (inverted_index (process_pages pages init_engine)))"
proof (induction pages arbitrary: w rule: rev_induct)
  case Nil
  show ?case
    by (simp add: process_pages_def init_engine_def index_get_def pages_with_def)
next
  case (snoc page pages)
  obtain url title_tag body where page: "page = (url, title_tag, body)"
    by (cases page)
  let ?e = "process_pages pages init_engine"
  have get: "\<And>v. index_get (inverted_index ?e) v = pages_with pages v"
    and keys: "fst ` set (inverted_index ?e) = {w. pages_with pages w \<noteq> []}"
    and dist: "distinct (map fst (inverted_index ?e))"
    using snoc.IH by simp_all
  have 1: "index_get (inverted_index (process_pages (pages @ [page]) init_engine)) w =
           pages_with (pages @ [page]) w"
    by (simp add: page process_pages_snoc process_page_eq index_get_foldl get pages_with_snoc)
  have 2: "fst ` set (inverted_index (process_pages (pages @ [page]) init_engine)) =
           {w. pages_with (pages @ [page]) w \<noteq> []}"
    by (auto simp: page process_pages_snoc process_page_eq keys_foldl keys pages_with_snoc)
  have 3: "distinct (map fst (inverted_index (process_pages (pages @ [page]) init_engine)))"
    by (simp add: page process_pages_snoc process_page_eq distinct_foldl dist)
  from 1 2 3 show ?case by simp
qed

lemma process_pages_rest:
  "trie (process_pages pages e) = trie e \<and>
   occurrence_lists (process_pages pages e) = occurrence_lists e"
proof (induction pages rule: rev_induct)
  case Nil
  show ?case by (simp add: process_pages_def)
next
  case (snoc page pages)
  obtain url title_tag body where page: "page = (url, title_tag, body)"
    by (cases page)
  from snoc show ?case
    by (simp add: page process_pages_snoc process_page_eq)
qed

lemma process_pages_dom:
  "dom (word_frequencies (process_pages pages init_engine)) = fst ` set pages"
proof (induction pages rule: rev_induct)
  case Nil
  show ?case by (simp add: process_pages_def init_engine_def)
next
  case (snoc page pages)
  obtain url title_tag body where page: "page = (url, title_tag, body)"
    by (cases page)
  have "word_frequencies (process_pages (pages @ [page]) init_engine) =
        (word_frequencies (process_pages pages init_engine))(url \<mapsto> count_list (tokenize body))"
    by (simp add: page process_pages_snoc process_page_eq)
  then have "dom (word_frequencies (process_pages (pages @ [page]) init_engine)) =
        insert url (dom (word_frequencies (process_pages pages init_engine)))"
    by (simp only: dom_fun_upd) simp
  with snoc page show ?case by simp
qed

lemma process_pages_frequencies:
  "distinct (map fst pages) \<Longrightarrow> (url, title_tag, text) \<in> set pages \<Longrightarrow>
   word_frequencies (process_pages pages init_engine) url = Some (count_list (tokenize text))"
proof (induction pages rule: rev_induct)
  case Nil
  then show ?case by simp
next
  case (snoc page pages)
  obtain u tt tx where page: "page = (u, tt, tx)"
    by (cases page)
  show ?case
  proof (cases "u = url")
    case True
    with snoc.prems page have "(url, title_tag, text) = page"
      by (force simp: image_iff)
    with page show ?thesis
      by (simp add: process_pages_snoc process_page_eq)
  next
    case False
    with snoc.prems page have "(url, title_tag, text) \<in> set pages" "distinct (map fst pages)"
      by auto
    with snoc.IH False page show ?thesis
      by (simp add: process_pages_snoc process_page_eq)
  qed
qed

lemma build_loop:
  "foldl build_step e (enumerate n ws) =
     e\<lparr>occurrence_lists :=
         occurrence_lists e @ map (\<lambda>w. sort (index_get (inverted_index e) w)) ws,
       trie := foldl (\<lambda>t (w, i). trie_insert w i t) (trie e)
                 (zip ws (map int [n..<n + length ws]))\<rparr>"
proof (induction ws arbitrary: e n)
  case Nil
  show ?case by simp
next
  case (Cons w ws)
  let ?e = "build_step e (n, w)"
  have upt: "[n..<n + length (w # ws)] = n # [Suc n..<Suc n + length ws]"
    using upt_conv_Cons [of n "n + length (w # ws)"] by simp
  have step: "inverted_index ?e = inverted_index e"
    "occurrence_lists ?e = occurrence_lists e @ [sort (index_get (inverted_index e) w)]"
    "trie ?e = trie_insert w (int n) (trie e)"
    by (simp_all add: build_step_def)
  have "foldl build_step e (enumerate n (w # ws)) =
        foldl build_step ?e (enumerate (Suc n) ws)"
    by simp
  also have "\<dots> = ?e\<lparr>occurrence_lists :=
         occurrence_lists ?e @ map (\<lambda>w. sort (index_get (inverted_index ?e) w)) ws,
       trie := foldl (\<lambda>t (w, i). trie_insert w i t) (trie ?e)
                 (zip ws (map int [Suc n..<Suc n + length ws]))\<rparr>"
    by (rule Cons.IH)
  also have "\<dots> = e\<lparr>occurrence_lists :=
         occurrence_lists e @ map (\<lambda>w. sort (index_get (inverted_index e) w)) (w # ws),
       trie := foldl (\<lambda>t (w, i). trie_insert w i t) (trie e)
                 (zip (w # ws) (map int (n # [Suc n..<Suc n + length ws])))\<rparr>"
    unfolding step by (simp add: build_step_def)
  finally show ?case
    unfolding upt .
qed

lemma set_vocabulary: "set (vocabulary pages) = {w. pages_with pages w \<noteq> []}"
  using process_pages_index [of pages] by (simp add: vocabulary_def)

lemma distinct_vocabulary: "distinct (vocabulary pages)"
  using process_pages_index [of pages] by (simp add: vocabulary_def)

lemma process_pages_init:
  "trie (process_pages pages init_engine) = new_node"
  "occurrence_lists (process_pages pages init_engine) = []"
  using process_pages_rest [of pages init_engine] by (simp_all add: init_engine_def)

lemma crawl_eq:
  "crawl_directory pages =
     (process_pages pages init_engine)
       \<lparr>occurrence_lists := map (\<lambda>w. sort (pages_with pages w)) (vocabulary pages),
        trie := trie_of (zip (vocabulary pages) (map int [0..<length (vocabulary pages)]))\<rparr>"
proof -
  have "crawl_directory pages =
          foldl build_step (process_pages pages init_engine) (enumerate 0 (vocabulary pages))"
    by (simp add: crawl_directory_def build_index_def vocabulary_def Let_def)
  also have "\<dots> = (process_pages pages init_engine)
       \<lparr>occurrence_lists := map (\<lambda>w. sort (pages_with pages w)) (vocabulary pages),
        trie := trie_of (zip (vocabulary pages) (map int [0..<length (vocabulary pages)]))\<rparr>"
    unfolding build_loop using process_pages_index [of pages]
    by (simp add: process_pages_init trie_of_def)
  finally show ?thesis .
qed

lemma crawl_occurrence_lists:
  "occurrence_lists (crawl_directory pages) =
     map (\<lambda>w. sort (pages_with pages w)) (vocabulary pages)"
  by (simp add: crawl_eq)

lemma crawl_trie:
  "trie (crawl_directory pages) =
     trie_of (zip (vocabulary pages) (map int [0..<length (vocabulary pages)]))"
  by (simp add: crawl_eq)

lemma crawl_store:
  "word_frequencies (crawl_directory pages) = word_frequencies (process_pages pages init_engine)"
  "page_titles (crawl_directory pages) = page_titles (process_pages pages init_engine)"
  by (simp_all add: crawl_eq)

lemma trie_search_enumerated:
  assumes "distinct ws"
  shows "trie_search (trie_of (zip ws (map int [0..<length ws]))) v =
           (if v \<in> set ws then int (THE i. i < length ws \<and> ws ! i = v) else - 1)"
proof (cases "v \<in> set ws")
  case False
  have rev: "map_of (rev (zip ws (map int [0..<length ws]))) =
      map_of (zip ws (map int [0..<length ws]))"
    using assms by (intro map_of_rev_distinct) simp
  from False show ?thesis
    unfolding trie_search_trie_of rev
    by (auto split: option.splits dest: map_of_SomeD set_zip_leftD)
next
  case True
  then obtain i where i: "i < length ws" "ws ! i = v"
    by (auto simp: in_set_conv_nth)
  with assms have the: "(THE i. i < length ws \<and> ws ! i = v) = i"
    by (auto simp: nth_eq_iff_index_eq)
  from i assms have "map_of (zip ws (map int [0..<length ws])) v = Some (int i)"
    using map_of_zip_nth [of ws "map int [0..<length ws]" i] by simp
  moreover have "map_of (rev (zip ws (map int [0..<length ws]))) =
      map_of (zip ws (map int [0..<length ws]))"
    using assms by (intro map_of_rev_distinct) simp
  ultimately show ?thesis
    using True the by (simp add: trie_search_trie_of)
qed

lemma crawl_found:
  assumes "pages_with pages v \<noteq> []"
  shows "\<exists>i < length (occurrence_lists (crawl_directory pages)).
           trie_search (trie (crawl_directory pages)) v = int i \<and>
           occurrence_lists (crawl_directory pages) ! i = sort (pages_with pages v)"
proof -
  let ?ws = "vocabulary pages"
  from assms have "v \<in> set ?ws" by (simp add: set_vocabulary)
  then obtain i where i: "i < length ?ws" "?ws ! i = v"
    by (auto simp: in_set_conv_nth)
  then have "(THE i. i < length ?ws \<and> ?ws ! i = v) = i"
    using distinct_vocabulary [of pages] by (auto simp: nth_eq_iff_index_eq)
  with \<open>v \<in> set ?ws\<close> have "trie_search (trie (crawl_directory pages)) v = int i"
    by (simp add: crawl_trie trie_search_enumerated distinct_vocabulary)
  with i show ?thesis
    by (auto simp: crawl_occurrence_lists)
qed

lemma crawl_not_found:
  "pages_with pages v = [] \<Longrightarrow> trie_search (trie (crawl_directory pages)) v = - 1"
  by (simp add: crawl_trie trie_search_enumerated distinct_vocabulary set_vocabulary)

lemma crawl_not_found_iff:
  "trie_search (trie (crawl_directory pages)) v = - 1 \<longleftrightarrow> pages_with pages v = []"
proof
  assume nf: "trie_search (trie (crawl_directory pages)) v = - 1"
  show "pages_with pages v = []"
  proof (rule ccontr)
    assume "pages_with pages v \<noteq> []"
    then obtain i where "trie_search (trie (crawl_directory pages)) v = int i"
      using crawl_found by blast
    with nf show False by simp
  qed
next
  assume "pages_with pages v = []"
  then show "trie_search (trie (crawl_directory pages)) v = - 1"
    by (rule crawl_not_found)
qed

lemma crawl_list_item:
  "pages_with pages v \<noteq> [] \<Longrightarrow>
   list_item (occurrence_lists (crawl_directory pages)) (trie_search (trie (crawl_directory pages)) v) =
     Inr (sort (pages_with pages v))"
  using crawl_found [of pages v] by (auto simp: list_item_def)

lemma crawl_postings: "postings (crawl_directory pages) v = sort (pages_with pages v)"
proof (cases "pages_with pages v = []")
  case True
  then show ?thesis by (simp add: postings_def crawl_not_found)
next
  case False
  with crawl_found [of pages v] show ?thesis
    by (auto simp: postings_def Let_def)
qed

section \<open>Postings and searching\<close>

lemma distinct_pages_with: "distinct (map fst pages) \<Longrightarrow> distinct (pages_with pages w)"
  by (simp add: pages_with_def distinct_map_filter)

lemma set_pages_with:
  "set (pages_with pages w) = {url. \<exists>title_tag body. (url, title_tag, body) \<in> set pages \<and> w \<in> set (tokenize body)}"
  by (force simp: pages_with_def image_iff)

text \<open>
  Claim C5. For every engine built by \<^verbatim>\<open>crawl_directory\<close> from a finite list of pages with
  pairwise distinct urls, every occurrence list of the postings table is sorted in
  ascending order and has no duplicate document identifier.
\<close>

theorem postings_sorted_distinct:
  assumes "distinct (map fst pages)"
  shows "\<forall>l\<in>set (occurrence_lists (crawl_directory pages)). sorted l \<and> distinct l"
  using assms by (auto simp: crawl_occurrence_lists distinct_pages_with)

theorem postings_sorted_distinct_witness:
  "distinct (map fst example_pages) \<and>
   occurrence_lists (crawl_directory example_pages) =
     [[''file://input_pages/d0.html'', ''file://input_pages/d1.html''],
      [''file://input_pages/d0.html'', ''file://input_pages/d1.html''],
      [''file://input_pages/d2.html''], [''file://input_pages/d2.html''],
      [''file://input_pages/d1.html''], [''file://input_pages/d1.html'']] \<and>
   sorted [''file://input_pages/d0.html'', ''file://input_pages/d1.html''] \<and>
   distinct [''file://input_pages/d0.html'', ''file://input_pages/d1.html'']"
proof -
  have d: "distinct (map fst example_pages)"
    by (simp add: example_pages_def)
  have l: "occurrence_lists (crawl_directory example_pages) =
     [[''file://input_pages/d0.html'', ''file://input_pages/d1.html''],
      [''file://input_pages/d0.html'', ''file://input_pages/d1.html''],
      [''file://input_pages/d2.html''], [''file://input_pages/d2.html''],
      [''file://input_pages/d1.html''], [''file://input_pages/d1.html'']]"
    by code_simp
  from postings_sorted_distinct [OF d]
  have "sorted [''file://input_pages/d0.html'', ''file://input_pages/d1.html''] \<and>
        distinct [''file://input_pages/d0.html'', ''file://input_pages/d1.html'']"
    unfolding l by (simp del: sorted2_simps distinct.simps)
  with d l show ?thesis
    by blast
qed

lemma frequency_of_crawl:
  assumes "distinct (map fst pages)" "(url, title_tag, body) \<in> set pages"
  shows "frequency_of (crawl_directory pages) url t = count_list (tokenize body) t"
  using process_pages_frequencies [OF assms] by (simp add: frequency_of_def crawl_store)

lemma frequency_of_absent:
  assumes "url \<notin> fst ` set pages"
  shows "frequency_of (crawl_directory pages) url t = 0"
proof -
  from assms have "url \<notin> dom (word_frequencies (process_pages pages init_engine))"
    by (simp add: process_pages_dom)
  then show ?thesis
    by (auto simp: frequency_of_def crawl_store split: option.splits)
qed

text \<open>
  Claim C2. For every engine built by \<^verbatim>\<open>crawl_directory\<close> from a finite list of pages with
  pairwise distinct urls, and for every term and document identifier: the identifier is
  in the postings list of the term if and only if the stored frequency of the term for
  that document is at least 1.
\<close>

theorem postings_iff_frequency:
  assumes "distinct (map fst pages)"
  shows "d \<in> set (postings (crawl_directory pages) t) \<longleftrightarrow>
         frequency_of (crawl_directory pages) d t \<ge> 1"
proof (cases "d \<in> fst ` set pages")
  case False
  then have "d \<notin> set (pages_with pages t)"
    by (auto simp: set_pages_with image_iff)
  with False show ?thesis
    by (simp add: crawl_postings frequency_of_absent)
next
  case True
  then obtain title_tag body where page: "(d, title_tag, body) \<in> set pages"
    by (auto simp: image_iff)
  have "d \<in> set (pages_with pages t) \<longleftrightarrow> t \<in> set (tokenize body)"
  proof
    assume "d \<in> set (pages_with pages t)"
    then obtain tt b where p: "(d, tt, b) \<in> set pages" "t \<in> set (tokenize b)"
      by (auto simp: set_pages_with)
    from assms p(1) page have "(tt, b) = (title_tag, body)"
      by (metis eq_key_imp_eq_value)
    with p(2) show "t \<in> set (tokenize body)" by simp
  next
    assume "t \<in> set (tokenize body)"
    with page show "d \<in> set (pages_with pages t)"
      by (auto simp: set_pages_with)
  qed
  moreover have "count_list (tokenize body) t \<ge> 1 \<longleftrightarrow> t \<in> set (tokenize body)"
    using count_list_0_iff [of "tokenize body" t] by auto
  ultimately show ?thesis
    by (simp add: crawl_postings frequency_of_crawl [OF assms page])
qed

theorem postings_iff_frequency_witness:
  "distinct (map fst example_pages) \<and>
   frequency_of (crawl_directory example_pages) ''file://input_pages/d2.html'' ''dogs'' = 3 \<and>
   ''file://input_pages/d2.html'' \<in> set (postings (crawl_directory example_pages) ''dogs'')"
proof -
  have d: "distinct (map fst example_pages)"
    by (simp add: example_pages_def)
  have f: "frequency_of (crawl_directory example_pages) ''file://input_pages/d2.html'' ''dogs'' = 3"
    by code_simp
  with d postings_iff_frequency [OF d, of "''file://input_pages/d2.html''" "''dogs''"] show ?thesis
    by simp
qed

lemma query_terms_tokenize: "query_terms_of q = tokenize q"
  unfolding query_terms_of_def using tokenize_words by (intro filter_True) blast

lemma collect_lists_crawl:
  "collect_lists (crawl_directory pages) ws acc =
     (if \<exists>w\<in>set ws. pages_with pages w = [] then Inr None
      else Inr (Some (acc @ map (\<lambda>w. sort (pages_with pages w)) ws)))"
proof (induction ws arbitrary: acc)
  case Nil
  show ?case by simp
next
  case (Cons w ws)
  show ?case
  proof (cases "pages_with pages w = []")
    case True
    then show ?thesis by (simp add: crawl_not_found)
  next
    case False
    then have "trie_search (trie (crawl_directory pages)) w \<noteq> - 1"
      by (simp add: crawl_not_found_iff)
    with False show ?thesis
      by (simp add: crawl_list_item Cons.IH)
  qed
qed

lemma set_intersection_loop:
  "set (foldl (\<lambda>intersection result_list. filter (\<lambda>d. d \<in> set result_list) intersection) xs ls) =
     set xs \<inter> (\<Inter>l\<in>set ls. set l)"
  by (induction ls arbitrary: xs) auto

lemma search_single:
  assumes "tokenize q = [t]"
  shows "search (crawl_directory pages) q = Inr (sort (pages_with pages t))"
proof (cases "pages_with pages t = []")
  case True
  with assms show ?thesis
    by (simp add: search_def query_terms_tokenize crawl_not_found)
next
  case False
  then have "trie_search (trie (crawl_directory pages)) t \<noteq> - 1"
    by (simp add: crawl_not_found_iff)
  with False assms show ?thesis
    by (simp add: search_def query_terms_tokenize crawl_list_item)
qed

lemma search_crawl:
  "\<exists>r. search (crawl_directory pages) q = Inr r \<and>
       set r = (if tokenize q = [] then {} else (\<Inter>w\<in>set (tokenize q). set (pages_with pages w)))"
proof (cases "tokenize q")
  case Nil
  then show ?thesis by (simp add: search_def query_terms_tokenize)
next
  case (Cons a ws)
  show ?thesis
  proof (cases ws)
    case Nil
    with Cons have "tokenize q = [a]" by simp
    then show ?thesis by (simp add: search_single)
  next
    case (Cons b vs)
    with \<open>tokenize q = a # ws\<close> have q: "tokenize q = a # b # vs" by simp
    show ?thesis
    proof (cases "\<exists>w\<in>set (tokenize q). pages_with pages w = []")
      case True
      then have "(\<Inter>w\<in>set (tokenize q). set (pages_with pages w)) = {}"
        by auto
      moreover from True have "search (crawl_directory pages) q = Inr []"
        unfolding search_def query_terms_tokenize Let_def collect_lists_crawl
        by (simp add: q)
      ultimately show ?thesis by (simp add: q)
    next
      case False
      then have "search (crawl_directory pages) q =
        Inr (foldl (\<lambda>intersection result_list. filter (\<lambda>d. d \<in> set result_list) intersection)
              (remdups (sort (pages_with pages a)))
              (map (\<lambda>w. sort (pages_with pages w)) (b # vs)))"
        unfolding search_def query_terms_tokenize Let_def collect_lists_crawl
        by (simp add: q)
      then show ?thesis
        by (auto simp: q set_intersection_loop)
    qed
  qed
qed

lemma search_result_pages:
  assumes "search (crawl_directory pages) q = Inr r"
  shows "set r \<subseteq> fst ` set pages"
proof (cases "tokenize q")
  case Nil
  with search_crawl [of pages q] assms show ?thesis by auto
next
  case (Cons a ws)
  with search_crawl [of pages q] assms have "set r \<subseteq> set (pages_with pages a)"
    by auto
  then show ?thesis
    by (auto simp: pages_with_def)
qed

text \<open>
  Claim C3. For every engine built by \<^verbatim>\<open>crawl_directory\<close> and every query: if one of the
  terms of the tokenized query (which is then not empty) resolves to \<open>-1\<close> (NOT_FOUND) in
  the trie, then \<^verbatim>\<open>search\<close> returns the empty result, whatever the other terms are.
\<close>

theorem search_not_found_empty:
  assumes "t \<in> set (tokenize q)"
    and "trie_search (trie (crawl_directory pages)) t = - 1"
  shows "search (crawl_directory pages) q = Inr []"
proof -
  from assms(2) have "pages_with pages t = []"
    by (simp add: crawl_not_found_iff)
  with assms(1) have "(\<Inter>w\<in>set (tokenize q). set (pages_with pages w)) = {}"
    by auto
  moreover from assms(1) have "tokenize q \<noteq> []"
    by auto
  ultimately obtain r where "search (crawl_directory pages) q = Inr r" "set r = {}"
    using search_crawl [of pages q] by auto
  then show ?thesis
    by simp
qed

theorem search_not_found_empty_witness:
  "''elephant'' \<in> set (tokenize ''elephant dog'') \<and>
   trie_search (trie (crawl_directory example_pages)) ''elephant'' = - 1 \<and>
   trie_search (trie (crawl_directory example_pages)) ''dog'' = 1 \<and>
   search (crawl_directory example_pages) ''elephant dog'' = Inr []"
proof -
  have a: "tokenize ''elephant dog'' = [''elephant'', ''dog'']"
    by code_simp
  have b: "trie_search (trie (crawl_directory example_pages)) ''elephant'' = - 1"
    by code_simp
  have c: "trie_search (trie (crawl_directory example_pages)) ''dog'' = 1"
    by code_simp
  from a have m: "''elephant'' \<in> set (tokenize ''elephant dog'')"
    by simp
  from search_not_found_empty [OF m b] m b c show ?thesis
    by simp
qed

text \<open>
  Claim C6. For every engine built by \<^verbatim>\<open>crawl_directory\<close> and every query that tokenizes to
  exactly one term, \<^verbatim>\<open>search\<close> returns exactly the occurrence list stored at the index the
  trie returns for that term, and the empty result when the trie returns \<open>-1\<close>; an index
  the trie returns is within the postings table.
\<close>

theorem search_single_term:
  assumes "tokenize q = [t]"
  shows "search (crawl_directory pages) q = Inr (postings (crawl_directory pages) t) \<and>
         (trie_search (trie (crawl_directory pages)) t = - 1 \<or>
          (0 \<le> trie_search (trie (crawl_directory pages)) t \<and>
           trie_search (trie (crawl_directory pages)) t <
             int (length (occurrence_lists (crawl_directory pages)))))"
proof -
  have "search (crawl_directory pages) q = Inr (postings (crawl_directory pages) t)"
    using assms by (simp add: search_single crawl_postings)
  moreover have "trie_search (trie (crawl_directory pages)) t = - 1 \<or>
          (0 \<le> trie_search (trie (crawl_directory pages)) t \<and>
           trie_search (trie (crawl_directory pages)) t <
             int (length (occurrence_lists (crawl_directory pages))))"
  proof (cases "pages_with pages t = []")
    case True
    then show ?thesis by (simp add: crawl_not_found)
  next
    case False
    with crawl_found [of pages t] show ?thesis by auto
  qed
  ultimately show ?thesis by simp
qed

theorem search_single_term_witness:
  "tokenize ''The dog!'' = [''dog''] \<and>
   trie_search (trie (crawl_directory example_pages)) ''dog'' = 1 \<and>
   search (crawl_directory example_pages) ''The dog!'' =
     Inr [''file://input_pages/d0.html'', ''file://input_pages/d1.html'']"
proof -
  have a: "tokenize ''The dog!'' = [''dog'']"
    by code_simp
  have b: "trie_search (trie (crawl_directory example_pages)) ''dog'' = 1"
    by code_simp
  have c: "postings (crawl_directory example_pages) ''dog'' =
     [''file://input_pages/d0.html'', ''file://input_pages/d1.html'']"
    by code_simp
  from search_single_term [OF a, of example_pages] a b c show ?thesis
    by simp
qed

text \<open>
  Claim C7. For every engine built by \<^verbatim>\<open>crawl_directory\<close> and every two queries whose
  tokenized term sequences are not empty and have the same set of terms (they differ by
  order and repetition only), \<^verbatim>\<open>search\<close> returns results with the same set of document
  identifiers.
\<close>

theorem search_order_independent:
  assumes "tokenize q1 \<noteq> []"
    and "set (tokenize q1) = set (tokenize q2)"
  shows "\<exists>r1 r2. search (crawl_directory pages) q1 = Inr r1 \<and>
                 search (crawl_directory pages) q2 = Inr r2 \<and> set r1 = set r2"
proof -
  from assms have "tokenize q2 \<noteq> []"
    by (metis set_empty)
  with assms search_crawl [of pages q1] search_crawl [of pages q2] show ?thesis
    by auto
qed

theorem search_order_independent_witness:
  "tokenize ''cat dog'' = [''cat'', ''dog''] \<and>
   tokenize ''dog cat dog'' = [''dog'', ''cat'', ''dog''] \<and>
   search (crawl_directory example_pages) ''cat dog'' =
     Inr [''file://input_pages/d0.html'', ''file://input_pages/d1.html''] \<and>
   search (crawl_directory example_pages) ''dog cat dog'' =
     Inr [''file://input_pages/d0.html'', ''file://input_pages/d1.html'']"
proof -
  have a: "tokenize ''cat dog'' = [''cat'', ''dog'']"
    by code_simp
  have b: "tokenize ''dog cat dog'' = [''dog'', ''cat'', ''dog'']"
    by code_simp
  have c: "search (crawl_directory example_pages) ''cat dog'' =
     Inr [''file://input_pages/d0.html'', ''file://input_pages/d1.html'']"
    by code_simp
  have d: "search (crawl_directory example_pages) ''dog cat dog'' =
     Inr [''file://input_pages/d0.html'', ''file://input_pages/d1.html'']"
    by code_simp
  have ne: "tokenize ''cat dog'' \<noteq> []"
    using a by simp
  have eq: "set (tokenize ''cat dog'') = set (tokenize ''dog cat dog'')"
    unfolding a b by auto
  from search_order_independent [OF ne eq, of example_pages] a b c d show ?thesis
    by simp
qed

lemma score_terms_sum:
  "score_terms e url c ts s =
     s + sum_list (map (\<lambda>t. int (c t) + (if in_title e url t then 2 else 0)) ts)"
  by (induction ts arbitrary: s) (simp_all add: Let_def)

lemma ranking_score_eq:
  assumes "word_frequencies e url = Some c"
  shows "ranking_score e ts url = Inr (sum_list (map (term_score e url) ts))"
proof -
  have "(\<lambda>t. int (c t) + (if in_title e url t then 2 else 0)) = term_score e url"
    using assms by (auto simp: term_score_def frequency_of_def)
  with assms show ?thesis
    by (simp add: ranking_score_def score_terms_sum)
qed

lemma keys_dict_set:
  "map fst (dict_set d k v) = (if k \<in> fst ` set d then map fst d else map fst d @ [k])"
  by (induction d k v rule: dict_set.induct) auto

lemma set_dict_set:
  "(u, s) \<in> set (dict_set d k v) \<Longrightarrow> (u = k \<and> s = v) \<or> (u, s) \<in> set d"
  by (induction d k v rule: dict_set.induct) (auto split: if_splits)

lemma score_results_ok:
  assumes "set results \<subseteq> dom (word_frequencies e)"
    and "distinct (map fst acc)"
    and "\<And>u s. (u, s) \<in> set acc \<Longrightarrow> s = sum_list (map (term_score e u) ts)"
  shows "\<exists>scores. score_results e ts results acc = Inr scores \<and>
           distinct (map fst scores) \<and>
           set (map fst scores) = set (map fst acc) \<union> set results \<and>
           (\<forall>(u, s)\<in>set scores. s = sum_list (map (term_score e u) ts)) \<and>
           (distinct (map fst acc @ results) \<longrightarrow> map fst scores = map fst acc @ results)"
  using assms
proof (induction results arbitrary: acc)
  case Nil
  then show ?case by auto
next
  case (Cons url rest)
  from Cons.prems(1) obtain c where c: "word_frequencies e url = Some c"
    by auto
  let ?v = "sum_list (map (term_score e url) ts)"
  let ?acc = "dict_set acc url ?v"
  have step: "score_results e ts (url # rest) acc = score_results e ts rest ?acc"
    by (simp add: ranking_score_eq [OF c])
  have 1: "set rest \<subseteq> dom (word_frequencies e)"
    using Cons.prems(1) by simp
  have 2: "distinct (map fst ?acc)"
    using Cons.prems(2) by (auto simp: keys_dict_set)
  have 3: "\<And>u s. (u, s) \<in> set ?acc \<Longrightarrow> s = sum_list (map (term_score e u) ts)"
    using Cons.prems(3) set_dict_set by blast
  from Cons.IH [OF 1 2 3] obtain scores where
    s: "score_results e ts rest ?acc = Inr scores"
      "distinct (map fst scores)"
      "set (map fst scores) = set (map fst ?acc) \<union> set rest"
      "\<forall>(u, s)\<in>set scores. s = sum_list (map (term_score e u) ts)"
      "distinct (map fst ?acc @ rest) \<longrightarrow> map fst scores = map fst ?acc @ rest"
    by blast
  have keys: "set (map fst ?acc) = insert url (set (map fst acc))"
    by (auto simp: keys_dict_set)
  have "distinct (map fst acc @ url # rest) \<longrightarrow> map fst scores = map fst acc @ url # rest"
  proof
    assume d: "distinct (map fst acc @ url # rest)"
    then have "url \<notin> fst ` set acc" by auto
    then have "map fst ?acc = map fst acc @ [url]"
      by (simp add: keys_dict_set)
    with d s(5) show "map fst scores = map fst acc @ url # rest"
      by simp
  qed
  with s keys step show ?case
    by auto
qed

lemma rank_results_ok:
  assumes "set results \<subseteq> dom (word_frequencies e)"
  shows "\<exists>ranked. rank_results e q results = Inr ranked \<and>
           set ranked = set results \<and> distinct ranked \<and>
           (distinct results \<longrightarrow> mset ranked = mset results) \<and>
           sorted_wrt (\<lambda>a b. listed_score e q b \<le> listed_score e q a) ranked"
proof -
  let ?ts = "query_terms_of q"
  from score_results_ok [OF assms, of "[]" ?ts] obtain scores where
    s: "score_results e ?ts results [] = Inr scores"
      "distinct (map fst scores)"
      "set (map fst scores) = set results"
      "\<forall>(u, s)\<in>set scores. s = listed_score e q u"
      "distinct results \<longrightarrow> map fst scores = results"
    unfolding listed_score_def by auto
  let ?sorted = "sort_key (\<lambda>item. - snd item) scores"
  let ?ranked = "map fst ?sorted"
  have r: "rank_results e q results = Inr ?ranked"
    by (simp add: rank_results_def s(1))
  have m: "mset ?ranked = mset (map fst scores)"
    by simp
  have "set ?ranked = set results"
    using s(3) by simp
  moreover have "distinct ?ranked"
    using s(2) m by (metis mset_eq_imp_distinct_iff)
  moreover have "distinct results \<longrightarrow> mset ?ranked = mset results"
    using s(5) m by metis
  moreover have "sorted_wrt (\<lambda>a b. listed_score e q b \<le> listed_score e q a) ?ranked"
  proof -
    have "sorted (map (\<lambda>item. - snd item) ?sorted)"
      by (rule sorted_sort_key)
    moreover have "map (\<lambda>item. - snd item) ?sorted = map (\<lambda>u. - listed_score e q u) ?ranked"
      using s(4) by (auto simp: comp_def)
    ultimately have "sorted (map (\<lambda>u. - listed_score e q u) ?ranked)"
      by simp
    then show ?thesis
      by (simp add: sorted_map sorted_wrt_map)
  qed
  ultimately show ?thesis
    using r by blast
qed

section \<open>Ranking\<close>

lemma crawl_dom: "dom (word_frequencies (crawl_directory pages)) = fst ` set pages"
  by (simp add: crawl_store process_pages_dom)

text \<open>
  Claim C9. For every engine built by \<^verbatim>\<open>crawl_directory\<close> and every query, \<^verbatim>\<open>search\<close> returns
  a result, every document identifier in it is the url of a processed page and a key of
  \<^verbatim>\<open>word_frequencies\<close>, and \<^verbatim>\<open>rank_results\<close> on that result returns a ranking: its
  dictionary accesses raise no KeyError.
\<close>

theorem search_results_rankable:
  "\<exists>results ranked.
      search (crawl_directory pages) q = Inr results \<and>
      set results \<subseteq> fst ` set pages \<and>
      set results \<subseteq> dom (word_frequencies (crawl_directory pages)) \<and>
      rank_results (crawl_directory pages) q results = Inr ranked"
proof -
  obtain results where r: "search (crawl_directory pages) q = Inr results"
    using search_crawl [of pages q] by blast
  then have p: "set results \<subseteq> fst ` set pages"
    by (rule search_result_pages)
  then have d: "set results \<subseteq> dom (word_frequencies (crawl_directory pages))"
    by (simp add: crawl_dom)
  from rank_results_ok [OF d, of q] obtain ranked where
    "rank_results (crawl_directory pages) q results = Inr ranked"
    by blast
  with r p d show ?thesis
    by blast
qed

theorem search_results_rankable_witness:
  "search (crawl_directory example_pages) ''dog'' =
     Inr [''file://input_pages/d0.html'', ''file://input_pages/d1.html''] \<and>
   rank_results (crawl_directory example_pages) ''dog''
       [''file://input_pages/d0.html'', ''file://input_pages/d1.html''] =
     Inr [''file://input_pages/d1.html'', ''file://input_pages/d0.html'']"
proof -
  have a: "search (crawl_directory example_pages) ''dog'' =
     Inr [''file://input_pages/d0.html'', ''file://input_pages/d1.html'']"
    by code_simp
  have b: "rank_results (crawl_directory example_pages) ''dog''
       [''file://input_pages/d0.html'', ''file://input_pages/d1.html''] =
     Inr [''file://input_pages/d1.html'', ''file://input_pages/d0.html'']"
    by code_simp
  from search_results_rankable [of example_pages "''dog''"] a b show ?thesis
    by simp
qed

text \<open>
  \<^verbatim>\<open>rank_results\<close> reads \<^verbatim>\<open>self.word_frequencies[url]\<close> for every candidate, so a candidate
  that is no key of that dictionary makes it raise: a list of one unknown url, which
  has no duplicates, gives a KeyError and no permutation.
\<close>

theorem rank_results_unknown_candidate:
  "distinct [''file://input_pages/nope.html''] \<and>
   rank_results (crawl_directory example_pages) ''dog'' [''file://input_pages/nope.html''] =
     Inl KeyError"
proof -
  have "rank_results (crawl_directory example_pages) ''dog'' [''file://input_pages/nope.html''] =
     Inl KeyError"
    by code_simp
  then show ?thesis
    by simp
qed

text \<open>
  Claim C10 (as amended). For every query and every list of candidates without duplicates
  whose members are keys of \<^verbatim>\<open>word_frequencies\<close> (documents added during the build, as
  every identifier that \<^verbatim>\<open>search\<close> returns is), \<^verbatim>\<open>rank_results\<close> returns a permutation of
  the candidates: each candidate exactly once and nothing else.
\<close>

theorem rank_results_permutation:
  assumes "distinct results"
    and "set results \<subseteq> dom (word_frequencies e)"
  shows "\<exists>ranked. rank_results e q results = Inr ranked \<and> mset ranked = mset results"
  using rank_results_ok [OF assms(2), of q] assms(1) by blast

theorem rank_results_permutation_witness:
  "distinct [''file://input_pages/d0.html'', ''file://input_pages/d1.html'',
             ''file://input_pages/d2.html''] \<and>
   rank_results (crawl_directory example_pages) ''dog''
       [''file://input_pages/d0.html'', ''file://input_pages/d1.html'',
        ''file://input_pages/d2.html''] =
     Inr [''file://input_pages/d1.html'', ''file://input_pages/d2.html'',
          ''file://input_pages/d0.html'']"
proof -
  have a: "distinct [''file://input_pages/d0.html'', ''file://input_pages/d1.html'',
             ''file://input_pages/d2.html'']"
    by simp
  have b: "set [''file://input_pages/d0.html'', ''file://input_pages/d1.html'',
             ''file://input_pages/d2.html''] \<subseteq>
           dom (word_frequencies (crawl_directory example_pages))"
    by (simp add: crawl_dom example_pages_def)
  have c: "rank_results (crawl_directory example_pages) ''dog''
       [''file://input_pages/d0.html'', ''file://input_pages/d1.html'',
        ''file://input_pages/d2.html''] =
     Inr [''file://input_pages/d1.html'', ''file://input_pages/d2.html'',
          ''file://input_pages/d0.html'']"
    by code_simp
  from rank_results_permutation [OF a b, of "''dog''"] a c show ?thesis
    by simp
qed

text \<open>
  The score as the specification words it, a sum over the distinct query terms, is not
  what \<^verbatim>\<open>rank_results\<close> computes when the query repeats a term: for the query
  \<open>dog dog\<close> the document \<open>d1\<close>, which \<^verbatim>\<open>search\<close> returns, gets 6, and the sum over the
  distinct terms is 3.
\<close>

theorem score_counts_repeated_terms:
  "search (crawl_directory example_pages) ''dog dog'' =
     Inr [''file://input_pages/d0.html'', ''file://input_pages/d1.html''] \<and>
   ranking_score (crawl_directory example_pages) (query_terms_of ''dog dog'')
       ''file://input_pages/d1.html'' = Inr 6 \<and>
   spec_score (crawl_directory example_pages) ''dog dog'' ''file://input_pages/d1.html'' = 3"
proof -
  have "search (crawl_directory example_pages) ''dog dog'' =
     Inr [''file://input_pages/d0.html'', ''file://input_pages/d1.html'']"
    by code_simp
  moreover have "ranking_score (crawl_directory example_pages) (query_terms_of ''dog dog'')
       ''file://input_pages/d1.html'' = Inr 6"
    by code_simp
  moreover have "spec_score (crawl_directory example_pages) ''dog dog''
       ''file://input_pages/d1.html'' = 3"
    by code_simp
  ultimately show ?thesis
    by simp
qed

text \<open>
  Claim C1. (as amended). For every engine built by \<^verbatim>\<open>crawl_directory\<close> and every query,
  the score that \<^verbatim>\<open>rank_results\<close> gives to a document returned by \<^verbatim>\<open>search\<close> is the sum,
  over the query terms counted as often as the query repeats them, of the frequency of the
  term in the document plus 2 when the term occurs in the lower-cased title; for a query
  without repeated terms this is the sum over its distinct terms. \<^verbatim>\<open>rank_results\<close> returns
  the candidates in descending order of this score.
\<close>

theorem rank_results_listed_score:
  "\<exists>results ranked.
      search (crawl_directory pages) q = Inr results \<and>
      rank_results (crawl_directory pages) q results = Inr ranked \<and>
      set ranked = set results \<and>
      (\<forall>url\<in>set results.
          ranking_score (crawl_directory pages) (query_terms_of q) url =
            Inr (listed_score (crawl_directory pages) q url)) \<and>
      (distinct (query_terms_of q) \<longrightarrow>
         (\<forall>url. listed_score (crawl_directory pages) q url =
                spec_score (crawl_directory pages) q url)) \<and>
      sorted_wrt (\<lambda>a b. listed_score (crawl_directory pages) q b \<le>
                         listed_score (crawl_directory pages) q a) ranked"
proof -
  let ?e = "crawl_directory pages"
  obtain results where r: "search ?e q = Inr results"
    using search_crawl [of pages q] by blast
  then have d: "set results \<subseteq> dom (word_frequencies ?e)"
    using search_result_pages [of pages q results] by (simp add: crawl_dom)
  from rank_results_ok [OF d, of q] obtain ranked where
    k: "rank_results ?e q results = Inr ranked" "set ranked = set results"
      "sorted_wrt (\<lambda>a b. listed_score ?e q b \<le> listed_score ?e q a) ranked"
    by blast
  have s: "\<forall>url\<in>set results.
      ranking_score ?e (query_terms_of q) url = Inr (listed_score ?e q url)"
  proof
    fix url assume "url \<in> set results"
    with d obtain c where "word_frequencies ?e url = Some c"
      by auto
    then show "ranking_score ?e (query_terms_of q) url = Inr (listed_score ?e q url)"
      unfolding listed_score_def by (rule ranking_score_eq)
  qed
  have "distinct (query_terms_of q) \<longrightarrow>
      (\<forall>url. listed_score ?e q url = spec_score ?e q url)"
    by (simp add: listed_score_def spec_score_def distinct_remdups_id)
  with r k s show ?thesis
    by blast
qed

theorem rank_results_listed_score_witness:
  "search (crawl_directory example_pages) ''dog dog'' =
     Inr [''file://input_pages/d0.html'', ''file://input_pages/d1.html''] \<and>
   rank_results (crawl_directory example_pages) ''dog dog''
       [''file://input_pages/d0.html'', ''file://input_pages/d1.html''] =
     Inr [''file://input_pages/d1.html'', ''file://input_pages/d0.html''] \<and>
   listed_score (crawl_directory example_pages) ''dog dog'' ''file://input_pages/d1.html'' = 6 \<and>
   listed_score (crawl_directory example_pages) ''dog dog'' ''file://input_pages/d0.html'' = 2"
proof -
  have a: "search (crawl_directory example_pages) ''dog dog'' =
     Inr [''file://input_pages/d0.html'', ''file://input_pages/d1.html'']"
    by code_simp
  have b: "rank_results (crawl_directory example_pages) ''dog dog''
       [''file://input_pages/d0.html'', ''file://input_pages/d1.html''] =
     Inr [''file://input_pages/d1.html'', ''file://input_pages/d0.html'']"
    by code_simp
  have c: "listed_score (crawl_directory example_pages) ''dog dog''
       ''file://input_pages/d1.html'' = 6"
    by code_simp
  have d: "listed_score (crawl_directory example_pages) ''dog dog''
       ''file://input_pages/d0.html'' = 2"
    by code_simp
  from rank_results_listed_score [of example_pages "''dog dog''"] a b c d show ?thesis
    by simp
qed

end
